theory Spec2Isabelle
  imports Main
begin

section \<open>The cooperative yield helper of \<open>eventloop-utils.ts\<close>\<close>

text \<open>
  The module holds one constant, one module-level variable and one exported async
  function:
  \<^verbatim>\<open>
  const MAX_EVENT_LOOP_PROCESSING_TIME = 50;

  let nextYield: number | undefined;
  export const doYield = async () => {
    if (nextYield !== undefined) {
      if (Date.now() > nextYield) {
        nextYield = undefined;
        await new Promise((resolve) => {
          setTimeout(resolve, 0);
        });
        return true;
      }
    } else {
      nextYield = Date.now() + MAX_EVENT_LOOP_PROCESSING_TIME;
    }
    return false;
  };
  \<close>
  Timestamps are the integers \<open>Date.now()\<close> returns (milliseconds, far below \<open>2^53\<close>, so the
  addition of 50 is exact) and are modelled as \<open>int\<close>. The variable \<open>nextYield\<close> is an
  \<open>int option\<close>, \<open>None\<close> for \<open>undefined\<close>. Every path of the function reads the clock exactly
  once, so a call takes the state and that one clock reading.
\<close>

definition MAX_EVENT_LOOP_PROCESSING_TIME :: int where
  "MAX_EVENT_LOOP_PROCESSING_TIME = 50"

text \<open>
  The body of an async function: it returns a value, throws (the promise is rejected), or
  awaits a promise that a timer of the given delay resolves and then goes on.
\<close>

datatype 'a async =
    Return 'a
  | Throw string
  | Await_Timeout nat "'a async"

text \<open>
  \<open>doYield nextYield now\<close> is the new value of the variable together with the async body
  that is left to run. All writes to \<open>nextYield\<close> happen before the \<open>await\<close>, so the new value
  is already final when the function suspends; a call that another task makes during the
  suspension is the next call in the order of invocation.
\<close>

definition doYield :: "int option \<Rightarrow> int \<Rightarrow> int option \<times> bool async" where
  "doYield nextYield now =
     (case nextYield of
        Some deadline \<Rightarrow>
          if now > deadline then (None, Await_Timeout 0 (Return True))
          else (Some deadline, Return False)
      | None \<Rightarrow> (Some (now + MAX_EVENT_LOOP_PROCESSING_TIME), Return False))"

text \<open>
  What the caller observes of an async body once the run loop has fired its timers: the
  value the promise settles with (\<open>Inl\<close> a rejection), and how many times the body handed
  control back to the run loop on the way.
\<close>

fun settle :: "'a async \<Rightarrow> string + 'a" where
  "settle (Return v) = Inr v"
| "settle (Throw e) = Inl e"
| "settle (Await_Timeout delay k) = settle k"

fun suspensions :: "'a async \<Rightarrow> nat" where
  "suspensions (Return v) = 0"
| "suspensions (Throw e) = 0"
| "suspensions (Await_Timeout delay k) = Suc (suspensions k)"

definition nextYield_after :: "int option \<Rightarrow> int \<Rightarrow> int option" where
  "nextYield_after nextYield now = fst (doYield nextYield now)"

definition returned :: "int option \<Rightarrow> int \<Rightarrow> string + bool" where
  "returned nextYield now = settle (snd (doYield nextYield now))"

definition suspended :: "int option \<Rightarrow> int \<Rightarrow> nat" where
  "suspended nextYield now = suspensions (snd (doYield nextYield now))"

subsection \<open>Sequences of calls\<close>

text \<open>
  A caller that awaits each call before it makes the next one, as in
  \<^verbatim>\<open>for (...) { await doYield(); }\<close>, observes one clock reading per call. \<open>run\<close> is the
  value of \<open>nextYield\<close> after such a sequence, \<open>results\<close> the values the calls returned, and
  \<open>yields\<close> the number of calls that returned \<open>true\<close>.
\<close>

fun run :: "int option \<Rightarrow> int list \<Rightarrow> int option" where
  "run nextYield [] = nextYield"
| "run nextYield (now # ts) = run (nextYield_after nextYield now) ts"

fun results :: "int option \<Rightarrow> int list \<Rightarrow> (string + bool) list" where
  "results nextYield [] = []"
| "results nextYield (now # ts) =
     returned nextYield now # results (nextYield_after nextYield now) ts"

fun suspension_counts :: "int option \<Rightarrow> int list \<Rightarrow> nat list" where
  "suspension_counts nextYield [] = []"
| "suspension_counts nextYield (now # ts) =
     suspended nextYield now # suspension_counts (nextYield_after nextYield now) ts"

definition yields :: "int option \<Rightarrow> int list \<Rightarrow> nat" where
  "yields nextYield ts = length (filter (\<lambda>r. r = Inr True) (results nextYield ts))"

subsection \<open>Calls of several tasks\<close>

text \<open>
  The variable is shared by every caller in the process, and a call that suspends hands
  control to the run loop, which may run other tasks before the call's timer fires. An
  event is either a task invoking \<open>doYield\<close> at a clock reading, or the run loop firing the
  timer a suspended call of a task waits for.
\<close>

datatype event = Call nat int | Timer nat

text \<open>
  A call that has returned: the task that made it, the value its promise settled with, and
  the value of \<open>nextYield\<close> at the moment it returned.
\<close>

record completion =
  task :: nat
  result :: "string + bool"
  at_return :: "int option"

text \<open>
  The process: the shared variable, and for each task the rest of the body of its call when
  it is suspended in one. At module load the variable is \<open>undefined\<close> and no call is
  suspended.
\<close>

record world =
  nextYield_var :: "int option"
  pending :: "nat \<Rightarrow> bool async option"

definition initial :: world where
  "initial = \<lparr>nextYield_var = None, pending = (\<lambda>i. None)\<rparr>"

text \<open>
  \<open>advance\<close> runs the body of task \<open>i\<close> up to its next \<open>await\<close> or to its end. \<open>step\<close> is one
  event: a task that is not suspended runs the synchronous part of \<open>doYield\<close> on the shared
  variable (a task suspended in a call awaits it and invokes nothing); a timer resumes the
  suspended call of its task. \<open>final\<close> is the process after a list of events and
  \<open>completions\<close> the calls that returned on the way, in the order they returned.
\<close>

fun advance :: "world \<Rightarrow> nat \<Rightarrow> bool async \<Rightarrow> world \<times> completion option" where
  "advance w i (Return b) =
     (w\<lparr>pending := (pending w)(i := None)\<rparr>,
      Some \<lparr>task = i, result = Inr b, at_return = nextYield_var w\<rparr>)"
| "advance w i (Throw e) =
     (w\<lparr>pending := (pending w)(i := None)\<rparr>,
      Some \<lparr>task = i, result = Inl e, at_return = nextYield_var w\<rparr>)"
| "advance w i (Await_Timeout delay k) = (w\<lparr>pending := (pending w)(i := Some k)\<rparr>, None)"

fun step :: "world \<Rightarrow> event \<Rightarrow> world \<times> completion option" where
  "step w (Call i now) =
     (case pending w i of
        Some k \<Rightarrow> (w, None)
      | None \<Rightarrow>
          (case doYield (nextYield_var w) now of
             (s, body) \<Rightarrow> advance (w\<lparr>nextYield_var := s\<rparr>) i body))"
| "step w (Timer i) =
     (case pending w i of
        None \<Rightarrow> (w, None)
      | Some k \<Rightarrow> advance w i k)"

fun final :: "world \<Rightarrow> event list \<Rightarrow> world" where
  "final w [] = w"
| "final w (e # es) = final (fst (step w e)) es"

fun completions :: "world \<Rightarrow> event list \<Rightarrow> completion list" where
  "completions w [] = []"
| "completions w (e # es) =
     (case snd (step w e) of
        None \<Rightarrow> completions (fst (step w e)) es
      | Some c \<Rightarrow> c # completions (fst (step w e)) es)"

section \<open>Single calls\<close>

lemmas call_defs = returned_def suspended_def nextYield_after_def doYield_def

lemma doYield_unset:
  "doYield None now = (Some (now + MAX_EVENT_LOOP_PROCESSING_TIME), Return False)"
  by (simp add: doYield_def)

lemma doYield_within:
  "now \<le> deadline \<Longrightarrow> doYield (Some deadline) now = (Some deadline, Return False)"
  by (simp add: doYield_def)

lemma doYield_overrun:
  "deadline < now \<Longrightarrow> doYield (Some deadline) now = (None, Await_Timeout 0 (Return True))"
  by (simp add: doYield_def)

text \<open>
  C1. A call made while the deadline is set returns \<open>false\<close> without suspending when the
  clock reads at most the deadline; when the clock reads strictly more, it clears the
  deadline, suspends exactly once and returns \<open>true\<close>. A call exactly at the deadline
  returns \<open>false\<close>.
\<close>

theorem doYield_deadline_set:
  "(now \<le> deadline \<longrightarrow>
      returned (Some deadline) now = Inr False \<and> suspended (Some deadline) now = 0)
   \<and> (deadline < now \<longrightarrow>
      nextYield_after (Some deadline) now = None
      \<and> suspended (Some deadline) now = 1
      \<and> returned (Some deadline) now = Inr True)
   \<and> returned (Some deadline) deadline = Inr False"
  by (simp add: returned_def suspended_def nextYield_after_def doYield_def)

theorem doYield_deadline_set_witness:
  "((30::int) \<le> 50 \<and> returned (Some 50) 30 = Inr False \<and> suspended (Some 50) 30 = 0)
   \<and> ((50::int) < 51 \<and> nextYield_after (Some 50) 51 = None
      \<and> suspended (Some 50) 51 = 1 \<and> returned (Some 50) 51 = Inr True)
   \<and> returned (Some 50) 50 = Inr False"
  using doYield_deadline_set [of 30 50] doYield_deadline_set [of 51 50] by simp

text \<open>
  C6. A call made while the deadline is unset, the first call ever made among them, sets
  the deadline to the clock reading plus \<open>MAX_EVENT_LOOP_PROCESSING_TIME\<close>, does not suspend
  and returns \<open>false\<close>, whatever the clock reads.
\<close>

theorem doYield_unset_arms:
  "nextYield_after None now = Some (now + MAX_EVENT_LOOP_PROCESSING_TIME)
   \<and> suspended None now = 0
   \<and> returned None now = Inr False"
  by (simp add: returned_def suspended_def nextYield_after_def doYield_def)

text \<open>
  C8. A call made while the deadline is set and the clock has not passed it leaves the
  deadline as it was.
\<close>

theorem doYield_frame:
  "now \<le> deadline \<Longrightarrow> nextYield_after (Some deadline) now = Some deadline"
  by (simp add: nextYield_after_def doYield_def)

theorem doYield_frame_witness:
  "(49::int) \<le> 50 \<and> nextYield_after (Some 50) 49 = Some 50"
  using doYield_frame [of 49 50] by simp

text \<open>
  C9. Whatever the state and the clock reading, a call cannot fail: its promise is never
  rejected, and it settles with a boolean after at most one turn of the run loop. The
  function body has no \<open>throw\<close> and calls only \<open>Date.now\<close> and \<open>setTimeout\<close>; the run loop is
  taken to fire the zero-delay timer, which is what \<open>settle\<close> does.
\<close>

theorem doYield_cannot_fail:
  "(returned s now = Inr False \<and> suspended s now = 0)
   \<or> (returned s now = Inr True \<and> suspended s now = 1)"
  by (simp add: call_defs split: option.splits)

lemma true_leaves_unset: "returned s now = Inr True \<Longrightarrow> nextYield_after s now = None"
  by (auto simp: call_defs split: option.splits if_splits)

lemma set_iff_false:
  "(nextYield_after s now \<noteq> None) = (returned s now = Inr False)"
  "(returned s now = Inr True) = (nextYield_after s now = None)"
  by (simp_all add: call_defs split: option.splits)

section \<open>Sequences of calls\<close>

text \<open>
  C3. From the unset state, calls at 0, 30, 49, 51 and 52 return \<open>false\<close>, \<open>false\<close>, \<open>false\<close>,
  \<open>true\<close>, \<open>false\<close>. The call at 0 sets the deadline to 50, the call at 51 suspends and
  clears it, and the call at 52 sets it to 102.
\<close>

theorem doYield_scenario:
  "results None [0, 30, 49, 51, 52] = [Inr False, Inr False, Inr False, Inr True, Inr False]
   \<and> suspension_counts None [0, 30, 49, 51, 52] = [0, 0, 0, 1, 0]
   \<and> run None [0] = Some 50
   \<and> run None [0, 30, 49] = Some 50
   \<and> run None [0, 30, 49, 51] = None
   \<and> run None [0, 30, 49, 51, 52] = Some 102"
  by (simp add: call_defs MAX_EVENT_LOOP_PROCESSING_TIME_def)

lemma within_deadline:
  "\<forall>t \<in> set ts. t \<le> deadline \<Longrightarrow>
     results (Some deadline) ts = replicate (length ts) (Inr False)
     \<and> suspension_counts (Some deadline) ts = replicate (length ts) 0
     \<and> run (Some deadline) ts = Some deadline"
  by (induction ts) (simp_all add: call_defs)

text \<open>
  C5. From the unset state, when every call after the first one at \<open>t0\<close> is made less
  than \<open>MAX_EVENT_LOOP_PROCESSING_TIME\<close> milliseconds after \<open>t0\<close>, every call returns \<open>false\<close>
  and none suspends, however many calls there are.
\<close>

theorem no_premature_suspension:
  assumes "\<forall>t \<in> set ts. t - t0 < MAX_EVENT_LOOP_PROCESSING_TIME"
  shows "results None (t0 # ts) = replicate (Suc (length ts)) (Inr False)
         \<and> suspension_counts None (t0 # ts) = replicate (Suc (length ts)) 0"
proof -
  from assms have "\<forall>t \<in> set ts. t \<le> t0 + MAX_EVENT_LOOP_PROCESSING_TIME"
    by auto
  from within_deadline [OF this] show ?thesis
    by (simp add: call_defs)
qed

theorem no_premature_suspension_witness:
  "30 - 0 < MAX_EVENT_LOOP_PROCESSING_TIME
   \<and> 49 - 0 < MAX_EVENT_LOOP_PROCESSING_TIME
   \<and> 10 - 0 < MAX_EVENT_LOOP_PROCESSING_TIME
   \<and> results None [0, 30, 49, 10, 49] = [Inr False, Inr False, Inr False, Inr False, Inr False]
   \<and> suspension_counts None [0, 30, 49, 10, 49] = [0, 0, 0, 0, 0]"
proof -
  have h: "\<forall>t \<in> set [30, 49, 10, 49]. t - 0 < MAX_EVENT_LOOP_PROCESSING_TIME"
    by (simp add: MAX_EVENT_LOOP_PROCESSING_TIME_def)
  from no_premature_suspension [OF h] show ?thesis
    using h by simp
qed

lemma run_append: "run s (ts @ us) = run (run s ts) us"
  by (induction ts arbitrary: s) simp_all

lemma run_snoc: "run s (ts @ [now]) = nextYield_after (run s ts) now"
  by (simp add: run_append)

lemma armed_by_some_call:
  "run None ts = Some deadline \<Longrightarrow>
     \<exists>pre now post. ts = pre @ now # post \<and> run None pre = None
       \<and> deadline = now + MAX_EVENT_LOOP_PROCESSING_TIME
       \<and> (\<forall>k \<le> length post. run None (pre @ now # take k post) = Some deadline)"
proof (induction ts arbitrary: deadline rule: rev_induct)
  case Nil
  then show ?case by simp
next
  case (snoc x xs)
  show ?case
  proof (cases "run None xs")
    case None
    with snoc.prems have "deadline = x + MAX_EVENT_LOOP_PROCESSING_TIME"
      by (simp add: run_snoc call_defs)
    moreover have "\<forall>k \<le> length ([]::int list). run None (xs @ x # take k []) = Some deadline"
      using snoc.prems by simp
    ultimately show ?thesis using None by blast
  next
    case (Some d)
    with snoc.prems have same: "d = deadline"
      by (simp add: run_snoc call_defs split: if_splits)
    with Some snoc.IH obtain pre now post where
      split: "xs = pre @ now # post" and unset: "run None pre = None"
      and armed: "deadline = now + MAX_EVENT_LOOP_PROCESSING_TIME"
      and kept: "\<forall>k \<le> length post. run None (pre @ now # take k post) = Some deadline"
      by blast
    have "run None (pre @ now # take k (post @ [x])) = Some deadline"
      if "k \<le> length (post @ [x])" for k
    proof (cases "k \<le> length post")
      case True
      with kept show ?thesis by simp
    next
      case False
      with that have "k = Suc (length post)" by simp
      then show ?thesis using snoc.prems split by simp
    qed
    then have "\<forall>k \<le> length (post @ [x]).
        run None (pre @ now # take k (post @ [x])) = Some deadline"
      by blast
    moreover have "xs @ [x] = pre @ now # (post @ [x])"
      using split by simp
    ultimately show ?thesis using unset armed by blast
  qed
qed

text \<open>
  C7. The budget is positive. A call leaves the deadline set to \<open>d\<close> only if it was \<open>d\<close> before,
  or if it was unset and \<open>d\<close> is this call's clock reading plus the budget, which is
  strictly later than that reading. So along every sequence of calls from the unset state
  a set deadline is \<open>now + MAX_EVENT_LOOP_PROCESSING_TIME\<close> for the clock reading \<open>now\<close> of
  the call that set it, made in the unset state, and every call since has kept it.
\<close>

theorem deadline_invariant:
  "0 < MAX_EVENT_LOOP_PROCESSING_TIME
   \<and> (nextYield_after s t = Some d \<longrightarrow>
        s = Some d \<or> (s = None \<and> d = t + MAX_EVENT_LOOP_PROCESSING_TIME \<and> t < d))
   \<and> (run None ts = Some deadline \<longrightarrow>
        (\<exists>pre now post. ts = pre @ now # post \<and> run None pre = None
           \<and> deadline = now + MAX_EVENT_LOOP_PROCESSING_TIME \<and> now < deadline
           \<and> (\<forall>k \<le> length post. run None (pre @ now # take k post) = Some deadline)))"
proof (intro conjI impI)
  show "0 < MAX_EVENT_LOOP_PROCESSING_TIME"
    by (simp add: MAX_EVENT_LOOP_PROCESSING_TIME_def)
next
  assume "nextYield_after s t = Some d"
  then show "s = Some d \<or> (s = None \<and> d = t + MAX_EVENT_LOOP_PROCESSING_TIME \<and> t < d)"
    by (auto simp: call_defs MAX_EVENT_LOOP_PROCESSING_TIME_def split: option.splits if_splits)
next
  assume "run None ts = Some deadline"
  from armed_by_some_call [OF this] obtain pre now post where
    "ts = pre @ now # post" "run None pre = None"
    "deadline = now + MAX_EVENT_LOOP_PROCESSING_TIME"
    "\<forall>k \<le> length post. run None (pre @ now # take k post) = Some deadline"
    by blast
  moreover from this have "now < deadline"
    by (simp add: MAX_EVENT_LOOP_PROCESSING_TIME_def)
  ultimately show "\<exists>pre now post. ts = pre @ now # post \<and> run None pre = None
           \<and> deadline = now + MAX_EVENT_LOOP_PROCESSING_TIME \<and> now < deadline
           \<and> (\<forall>k \<le> length post. run None (pre @ now # take k post) = Some deadline)"
    by blast
qed

theorem deadline_invariant_witness:
  "nextYield_after None 0 = Some 50
   \<and> (0::int) < 50
   \<and> run None [0, 30] = Some 50
   \<and> (\<exists>pre now post. [0, 30] = pre @ now # post \<and> run None pre = None
         \<and> 50 = now + MAX_EVENT_LOOP_PROCESSING_TIME \<and> now < 50
         \<and> (\<forall>k \<le> length post. run None (pre @ now # take k post) = Some 50))"
proof -
  have step: "nextYield_after None 0 = Some 50"
    by (simp add: call_defs MAX_EVENT_LOOP_PROCESSING_TIME_def)
  have final: "run None [0, 30] = Some 50"
    by (simp add: call_defs MAX_EVENT_LOOP_PROCESSING_TIME_def)
  have budget: "(0::int) < 50" by simp
  from deadline_invariant [of None 0 50 "[0, 30]" 50]
  have "run None [0, 30] = Some 50 \<longrightarrow>
        (\<exists>pre now post. [0, 30] = pre @ now # post \<and> run None pre = None
           \<and> 50 = now + MAX_EVENT_LOOP_PROCESSING_TIME \<and> now < 50
           \<and> (\<forall>k \<le> length post. run None (pre @ now # take k post) = Some 50))"
    by (rule conjunct2 [THEN conjunct2])
  then have "\<exists>pre now post. [0, 30] = pre @ now # post \<and> run None pre = None
           \<and> 50 = now + MAX_EVENT_LOOP_PROCESSING_TIME \<and> now < 50
           \<and> (\<forall>k \<le> length post. run None (pre @ now # take k post) = Some 50)"
    using final by (rule mp)
  with step budget final show ?thesis
    by (intro conjI)
qed

lemma yields_Nil: "yields s [] = 0"
  by (simp add: yields_def)

lemma yields_Cons:
  "yields s (now # ts) =
     (if returned s now = Inr True then 1 else 0) + yields (nextYield_after s now) ts"
  by (simp add: yields_def)

lemma strictly_increasing_last: "sorted_wrt (<) (t # ts) \<Longrightarrow> (t::int) \<le> last (t # ts)"
proof (induction ts arbitrary: t)
  case Nil
  show ?case by simp
next
  case (Cons u us)
  from Cons.prems have "t < u" and "sorted_wrt (<) (u # us)"
    by simp_all
  with Cons.IH [of u] show ?case by simp
qed

lemma yields_window:
  "sorted_wrt (<) (t # ts) \<Longrightarrow>
     (case s of
        None \<Rightarrow> 52 * int (yields None (t # ts)) \<le> last (t # ts) - t + 1
      | Some d \<Rightarrow> yields (Some d) (t # ts) = 0
                  \<or> 52 * int (yields (Some d) (t # ts)) \<le> last (t # ts) - d + 51)"
proof (induction ts arbitrary: s t)
  case Nil
  then show ?case
    by (simp add: yields_Cons yields_Nil call_defs split: option.splits)
next
  case (Cons u us)
  from Cons.prems have tu: "t < u" and rest: "sorted_wrt (<) (u # us)"
    by simp_all
  from strictly_increasing_last [OF rest] have ul: "u \<le> last (u # us)" .
  have l: "last (t # u # us) = last (u # us)" by simp
  show ?case
  proof (cases s)
    case None
    have y: "yields None (t # u # us) = yields (Some (t + 50)) (u # us)"
      by (simp add: yields_Cons [of None t] call_defs MAX_EVENT_LOOP_PROCESSING_TIME_def)
    from Cons.IH [OF rest, of "Some (t + 50)"]
    have "yields (Some (t + 50)) (u # us) = 0
          \<or> 52 * int (yields (Some (t + 50)) (u # us)) \<le> last (u # us) - (t + 50) + 51"
      by simp
    with None y l tu ul show ?thesis by auto
  next
    case (Some d)
    show ?thesis
    proof (cases "d < t")
      case True
      then have y: "yields (Some d) (t # u # us) = Suc (yields None (u # us))"
        by (simp add: yields_Cons [of "Some d" t] call_defs)
      from Cons.IH [OF rest, of None]
      have "52 * int (yields None (u # us)) \<le> last (u # us) - u + 1"
        by simp
      with Some y l tu True show ?thesis by simp
    next
      case False
      then have y: "yields (Some d) (t # u # us) = yields (Some d) (u # us)"
        by (simp add: yields_Cons [of "Some d" t] call_defs)
      from Cons.IH [OF rest, of "Some d"] Some y l show ?thesis by simp
    qed
  qed
qed

text \<open>
  C2 as stated fails: the number of \<open>true\<close> results is not within 1 of
  \<open>floor (elapsed / 50)\<close>. Calls at 0 and 150 give one \<open>true\<close> result, and the quotient is 3.
\<close>

theorem yields_tolerance_counterexample:
  "sorted_wrt (<) [0::int, 150]
   \<and> yields None [0, 150] = 1
   \<and> (last [0, 150] - hd [0::int, 150]) div MAX_EVENT_LOOP_PROCESSING_TIME = 3
   \<and> \<not> \<bar>int (yields None [0, 150])
          - (last [0, 150] - hd [0::int, 150]) div MAX_EVENT_LOOP_PROCESSING_TIME\<bar> \<le> 1"
  by (simp add: yields_def call_defs MAX_EVENT_LOOP_PROCESSING_TIME_def)

text \<open>
  C2, amended. For a non-empty sequence of calls with strictly increasing clock readings,
  from the unset state, the number of calls that return \<open>true\<close> is at most
  \<open>floor (elapsed / MAX_EVENT_LOOP_PROCESSING_TIME)\<close>, where \<open>elapsed\<close> is the last reading
  minus the first.
\<close>

theorem yields_upper_bound:
  assumes "ts \<noteq> []" and "sorted_wrt (<) ts"
  shows "int (yields None ts) \<le> (last ts - hd ts) div MAX_EVENT_LOOP_PROCESSING_TIME"
proof -
  from assms obtain t us where ts: "ts = t # us"
    by (cases ts) auto
  with assms have inc: "sorted_wrt (<) (t # us)" by simp
  from yields_window [OF inc, of None]
  have w: "52 * int (yields None ts) \<le> last ts - hd ts + 1"
    using ts by simp
  from strictly_increasing_last [OF inc] ts have "0 \<le> last ts - hd ts" by simp
  with w have "50 * int (yields None ts) \<le> last ts - hd ts"
    by (cases "yields None ts") simp_all
  then show ?thesis
    unfolding MAX_EVENT_LOOP_PROCESSING_TIME_def by linarith
qed

theorem yields_upper_bound_witness:
  "[0, 51, 52, 103] \<noteq> ([]::int list) \<and> sorted_wrt (<) [0::int, 51, 52, 103]
   \<and> yields None [0, 51, 52, 103] = 2
   \<and> int (yields None [0, 51, 52, 103])
       \<le> (last [0, 51, 52, 103] - hd [0::int, 51, 52, 103]) div MAX_EVENT_LOOP_PROCESSING_TIME"
proof -
  have h1: "[0, 51, 52, 103] \<noteq> ([]::int list)" by simp
  have h2: "sorted_wrt (<) [0::int, 51, 52, 103]" by simp
  have "yields None [0, 51, 52, 103] = 2"
    by (simp add: yields_def call_defs MAX_EVENT_LOOP_PROCESSING_TIME_def)
  with yields_upper_bound [OF h1 h2] h1 h2 show ?thesis by simp
qed

section \<open>Calls of several tasks\<close>

lemma final_append: "final w (es @ fs) = final (final w es) fs"
  by (induction es arbitrary: w) simp_all

lemma completions_append:
  "completions w (es @ fs) = completions w es @ completions (final w es) fs"
  by (induction es arbitrary: w) (simp_all split: option.splits)

lemma advance_other:
  "nextYield_var (fst (advance w j k)) = nextYield_var w
   \<and> (j \<noteq> i \<longrightarrow> pending (fst (advance w j k)) i = pending w i)
   \<and> (\<forall>c. snd (advance w j k) = Some c \<longrightarrow> task c = j)"
  by (cases k) auto

lemma timer_other:
  assumes "j \<noteq> i"
  shows "nextYield_var (fst (step w (Timer j))) = nextYield_var w"
    and "pending (fst (step w (Timer j))) i = pending w i"
    and "snd (step w (Timer j)) = Some c \<Longrightarrow> task c \<noteq> i"
  using assms advance_other [of w j _ i]
  by (auto split: option.splits)

lemma timers_of_others:
  "\<forall>e \<in> set es. \<exists>j. e = Timer j \<and> j \<noteq> i \<Longrightarrow>
     nextYield_var (final w es) = nextYield_var w
     \<and> pending (final w es) i = pending w i
     \<and> filter (\<lambda>c. task c = i) (completions w es) = []"
proof (induction es arbitrary: w)
  case Nil
  show ?case by simp
next
  case (Cons e es)
  then obtain j where e: "e = Timer j" and j: "j \<noteq> i"
    by auto
  from Cons.prems have rest: "\<forall>e \<in> set es. \<exists>j. e = Timer j \<and> j \<noteq> i"
    by simp
  note ih = Cons.IH [OF rest, of "fst (step w (Timer j))"]
  from ih timer_other [OF j, of w] show ?case
    unfolding e by (simp split: option.splits)
qed

lemma call_then_timer:
  "completions w (Call i now # es @ [Timer i])
     = completions w [Call i now]
       @ completions (fst (step w (Call i now))) es
       @ completions (final (fst (step w (Call i now))) es) [Timer i]"
  "final w (Call i now # es @ [Timer i])
     = fst (step (final (fst (step w (Call i now))) es) (Timer i))"
  using completions_append [of w "[Call i now]" "es @ [Timer i]"]
  by (simp_all add: completions_append final_append del: step.simps)

text \<open>
  When no call is invoked while a call of task \<open>i\<close> is suspended (only timers of other tasks
  fire in between), the call returns what the single-call model says and the variable at
  its return is the value its synchronous part wrote.
\<close>

lemma solo_call:
  assumes free: "pending w i = None"
    and quiet: "\<forall>e \<in> set es. \<exists>j. e = Timer j \<and> j \<noteq> i"
  shows "filter (\<lambda>c. task c = i) (completions w (Call i now # es @ [Timer i]))
           = [\<lparr>task = i, result = returned (nextYield_var w) now,
               at_return = nextYield_after (nextYield_var w) now\<rparr>]
         \<and> nextYield_var (final w (Call i now # es @ [Timer i]))
             = nextYield_after (nextYield_var w) now
         \<and> pending (final w (Call i now # es @ [Timer i])) i = None"
proof -
  define w1 where "w1 = fst (step w (Call i now))"
  define w2 where "w2 = final w1 es"
  note split = call_then_timer [of w i now es, folded w1_def, folded w2_def]
  from timers_of_others [OF quiet, of w1]
  have during: "nextYield_var w2 = nextYield_var w1" "pending w2 i = pending w1 i"
      "filter (\<lambda>c. task c = i) (completions w1 es) = []"
    by (simp_all add: w2_def)
  show ?thesis
  proof (cases "returned (nextYield_var w) now = Inr True")
    case True
    then have body: "doYield (nextYield_var w) now = (None, Await_Timeout 0 (Return True))"
      by (auto simp: call_defs split: option.splits if_splits)
    from free body have w1: "nextYield_var w1 = None" "pending w1 i = Some (Return True)"
      and c1: "completions w [Call i now] = []"
      by (simp_all add: w1_def)
    from w1 during have c3: "completions w2 [Timer i]
        = [\<lparr>task = i, result = Inr True, at_return = None\<rparr>]"
      and w3: "nextYield_var (fst (step w2 (Timer i))) = None"
        "pending (fst (step w2 (Timer i))) i = None"
      by simp_all
    from body have "nextYield_after (nextYield_var w) now = None"
      by (simp add: nextYield_after_def)
    with True c1 c3 w3 during(3) show ?thesis
      unfolding split by simp
  next
    case False
    then have body: "doYield (nextYield_var w) now
        = (nextYield_after (nextYield_var w) now, Return False)"
      and res: "returned (nextYield_var w) now = Inr False"
      by (auto simp: call_defs split: option.splits if_splits)
    from free body have w1: "nextYield_var w1 = nextYield_after (nextYield_var w) now"
        "pending w1 i = None"
      and c1: "completions w [Call i now]
        = [\<lparr>task = i, result = Inr False, at_return = nextYield_after (nextYield_var w) now\<rparr>]"
      by (simp_all add: w1_def)
    from w1 during have c3: "completions w2 [Timer i] = []"
      and w3: "nextYield_var (fst (step w2 (Timer i))) = nextYield_after (nextYield_var w) now"
        "pending (fst (step w2 (Timer i))) i = None"
      by simp_all
    from res c1 c3 w3 during(3) show ?thesis
      unfolding split by simp
  qed
qed

lemma timers_keep_variable: "nextYield_var (final w (map Timer js)) = nextYield_var w"
proof (induction js arbitrary: w)
  case Nil
  show ?case by simp
next
  case (Cons j js)
  from advance_other [of w j _ j] have "nextYield_var (fst (step w (Timer j))) = nextYield_var w"
    by (simp split: option.splits)
  with Cons.IH [of "fst (step w (Timer j))"] show ?case by simp
qed

lemma advance_variable: "nextYield_var (fst (advance w j k)) = nextYield_var w"
  by (cases k) simp_all

lemma call_sets_variable:
  "pending w i = None \<Longrightarrow>
     nextYield_var (fst (step w (Call i now))) = nextYield_after (nextYield_var w) now"
  by (simp add: nextYield_after_def advance_variable split: prod.splits)

lemma call_when_unset:
  assumes "nextYield_var w = None" and "pending w j = None"
  shows "nextYield_var (fst (step w (Call j now))) = Some (now + MAX_EVENT_LOOP_PROCESSING_TIME)"
    and "snd (step w (Call j now))
      = Some \<lparr>task = j, result = Inr False,
              at_return = Some (now + MAX_EVENT_LOOP_PROCESSING_TIME)\<rparr>"
  using assms by (simp_all add: doYield_def)

text \<open>
  C4 as stated fails when another task calls during the suspension. Task 0 arms the
  deadline at 0 and overruns at 51; while it is suspended task 1 calls at 60 and sets the
  deadline to 110. The call of task 0 then returns \<open>true\<close> with the deadline set, and its next
  call at 70 leaves the deadline at 110 instead of setting it to 120.
\<close>

theorem interleaved_rearm_counterexample:
  "completions initial [Call 0 0, Call 0 51, Call 1 60, Timer 0, Call 0 70]
     = [\<lparr>task = 0, result = Inr False, at_return = Some 50\<rparr>,
        \<lparr>task = 1, result = Inr False, at_return = Some 110\<rparr>,
        \<lparr>task = 0, result = Inr True, at_return = Some 110\<rparr>,
        \<lparr>task = 0, result = Inr False, at_return = Some 110\<rparr>]
   \<and> nextYield_var (final initial [Call 0 0, Call 0 51, Call 1 60, Timer 0]) = Some 110
   \<and> nextYield_var (final initial [Call 0 0, Call 0 51, Call 1 60, Timer 0, Call 0 70])
       \<noteq> Some (70 + MAX_EVENT_LOOP_PROCESSING_TIME)"
  by (simp add: initial_def doYield_def MAX_EVENT_LOOP_PROCESSING_TIME_def)

text \<open>
  C4, amended. For every call that returns \<open>true\<close> and during whose suspension no other call
  is invoked, the deadline is unset when the call returns, and the very next call, by any
  task that is not suspended, at the same or any later clock reading \<open>now'\<close>, sets the
  deadline to \<open>now' + MAX_EVENT_LOOP_PROCESSING_TIME\<close> and returns \<open>false\<close> without
  suspending.
\<close>

theorem rearm_after_return:
  assumes free: "pending w i = None"
    and quiet: "\<forall>e \<in> set es. \<exists>k. e = Timer k \<and> k \<noteq> i"
    and completed: "c \<in> set (completions w (Call i now # es @ [Timer i]))" "task c = i"
    and true: "result c = Inr True"
    and later: "now \<le> now'"
    and caller: "pending (final w (Call i now # es @ [Timer i])) j = None"
  shows "at_return c = None
    \<and> nextYield_var (final w (Call i now # es @ [Timer i])) = None
    \<and> nextYield_var (fst (step (final w (Call i now # es @ [Timer i])) (Call j now')))
        = Some (now' + MAX_EVENT_LOOP_PROCESSING_TIME)
    \<and> snd (step (final w (Call i now # es @ [Timer i])) (Call j now'))
        = Some \<lparr>task = j, result = Inr False,
                at_return = Some (now' + MAX_EVENT_LOOP_PROCESSING_TIME)\<rparr>"
proof -
  let ?c = "\<lparr>task = i, result = returned (nextYield_var w) now,
             at_return = nextYield_after (nextYield_var w) now\<rparr>"
  from solo_call [OF free quiet, of now]
  have own: "filter (\<lambda>c. task c = i) (completions w (Call i now # es @ [Timer i])) = [?c]"
    and state: "nextYield_var (final w (Call i now # es @ [Timer i]))
      = nextYield_after (nextYield_var w) now"
    by simp_all
  from completed have "c \<in> set (filter (\<lambda>c. task c = i)
      (completions w (Call i now # es @ [Timer i])))"
    by simp
  with own have c: "c = ?c" by simp
  with true have "returned (nextYield_var w) now = Inr True" by simp
  then have unset: "nextYield_after (nextYield_var w) now = None"
    by (rule true_leaves_unset)
  with state have "nextYield_var (final w (Call i now # es @ [Timer i])) = None"
    by simp
  from call_when_unset [OF this caller, of now'] this c unset show ?thesis
    by simp
qed

theorem rearm_after_return_witness:
  "completions \<lparr>nextYield_var = Some 50, pending = (\<lambda>i. None)\<rparr> [Call 0 51, Timer 1, Timer 0]
     = [\<lparr>task = 0, result = Inr True, at_return = None\<rparr>]
   \<and> nextYield_var (final \<lparr>nextYield_var = Some 50, pending = (\<lambda>i. None)\<rparr>
        [Call 0 51, Timer 1, Timer 0]) = None
   \<and> nextYield_var (fst (step (final \<lparr>nextYield_var = Some 50, pending = (\<lambda>i. None)\<rparr>
        [Call 0 51, Timer 1, Timer 0]) (Call 0 51))) = Some 101
   \<and> snd (step (final \<lparr>nextYield_var = Some 50, pending = (\<lambda>i. None)\<rparr>
        [Call 0 51, Timer 1, Timer 0]) (Call 0 51))
       = Some \<lparr>task = 0, result = Inr False, at_return = Some 101\<rparr>"
proof -
  let ?w = "\<lparr>nextYield_var = Some 50, pending = (\<lambda>i. None)\<rparr>"
  let ?c = "\<lparr>task = 0, result = Inr True, at_return = None\<rparr>"
  have free: "pending ?w 0 = None" by simp
  have quiet: "\<forall>e \<in> set [Timer 1]. \<exists>k. e = Timer k \<and> k \<noteq> 0" by simp
  have run: "completions ?w (Call 0 51 # [Timer 1] @ [Timer 0]) = [?c]"
    by (simp add: doYield_def)
  then have completed: "?c \<in> set (completions ?w (Call 0 51 # [Timer 1] @ [Timer 0]))"
    by simp
  have own: "task ?c = 0" and true: "result ?c = Inr True" by simp_all
  have later: "(51::int) \<le> 51" by simp
  have caller: "pending (final ?w (Call 0 51 # [Timer 1] @ [Timer 0])) 0 = None"
    by (simp add: doYield_def)
  from rearm_after_return [OF free quiet completed own true later caller] run
  show ?thesis
    by (simp add: MAX_EVENT_LOOP_PROCESSING_TIME_def del: step.simps final.simps completions.simps)
qed

text \<open>
  C10 as stated fails when another task calls during the suspension. In the run above the
  call of task 0 at 51 returns \<open>true\<close> while the deadline is set to 110, and the next call of
  task 0, at 111, returns \<open>true\<close> again.
\<close>

theorem interleaved_true_counterexample:
  "completions initial [Call 0 0, Call 0 51, Call 1 60, Timer 0, Call 0 111, Timer 0]
     = [\<lparr>task = 0, result = Inr False, at_return = Some 50\<rparr>,
        \<lparr>task = 1, result = Inr False, at_return = Some 110\<rparr>,
        \<lparr>task = 0, result = Inr True, at_return = Some 110\<rparr>,
        \<lparr>task = 0, result = Inr True, at_return = None\<rparr>]
   \<and> nextYield_var (final initial [Call 0 0, Call 0 51, Call 1 60, Timer 0]) = Some 110"
  by (simp add: initial_def doYield_def MAX_EVENT_LOOP_PROCESSING_TIME_def)

text \<open>
  C10, amended. A call during whose suspension no other call is invoked returns exactly
  once, and at its return the deadline is set if and only if it returned \<open>false\<close>, unset if
  and only if it returned \<open>true\<close>. Two calls invoked one after the other, with no call
  invoked between them (timers of any task may fire), never both return \<open>true\<close>, whatever
  the two clock readings are.
\<close>

theorem set_iff_false_at_return:
  assumes free: "pending w i = None"
    and quiet: "\<forall>e \<in> set es. \<exists>k. e = Timer k \<and> k \<noteq> i"
  shows "(\<exists>c. filter (\<lambda>c. task c = i) (completions w (Call i now # es @ [Timer i])) = [c]
            \<and> result c = returned (nextYield_var w) now
            \<and> at_return c = nextYield_var (final w (Call i now # es @ [Timer i]))
            \<and> (at_return c \<noteq> None) = (result c = Inr False)
            \<and> (result c = Inr True) = (at_return c = None))
    \<and> \<not> (returned (nextYield_var w) now = Inr True
         \<and> returned (nextYield_var (final w (Call i now # map Timer js))) now2 = Inr True)"
proof (rule conjI)
  let ?c = "\<lparr>task = i, result = returned (nextYield_var w) now,
             at_return = nextYield_after (nextYield_var w) now\<rparr>"
  from solo_call [OF free quiet, of now] set_iff_false [of "nextYield_var w" now]
  have "filter (\<lambda>c. task c = i) (completions w (Call i now # es @ [Timer i])) = [?c]
        \<and> result ?c = returned (nextYield_var w) now
        \<and> at_return ?c = nextYield_var (final w (Call i now # es @ [Timer i]))
        \<and> (at_return ?c \<noteq> None) = (result ?c = Inr False)
        \<and> (result ?c = Inr True) = (at_return ?c = None)"
    by simp
  then show "\<exists>c. filter (\<lambda>c. task c = i) (completions w (Call i now # es @ [Timer i])) = [c]
            \<and> result c = returned (nextYield_var w) now
            \<and> at_return c = nextYield_var (final w (Call i now # es @ [Timer i]))
            \<and> (at_return c \<noteq> None) = (result c = Inr False)
            \<and> (result c = Inr True) = (at_return c = None)"
    by (rule exI)
next
  have "nextYield_var (final w (Call i now # map Timer js))
      = nextYield_after (nextYield_var w) now"
    using call_sets_variable [OF free, of now]
      timers_keep_variable [of "fst (step w (Call i now))" js]
    by (simp del: step.simps)
  then show "\<not> (returned (nextYield_var w) now = Inr True
         \<and> returned (nextYield_var (final w (Call i now # map Timer js))) now2 = Inr True)"
    by (auto simp: call_defs split: option.splits if_splits)
qed

theorem set_iff_false_at_return_witness:
  "(\<exists>c. filter (\<lambda>c. task c = 0)
          (completions \<lparr>nextYield_var = Some 50, pending = (\<lambda>i. None)\<rparr>
             [Call 0 51, Timer 1, Timer 0]) = [c]
        \<and> result c = Inr True \<and> at_return c = None)
   \<and> returned (Some 50) 51 = Inr True
   \<and> returned (nextYield_var (final \<lparr>nextYield_var = Some 50, pending = (\<lambda>i. None)\<rparr>
        [Call 0 51, Timer 0])) 52 = Inr False"
proof -
  let ?w = "\<lparr>nextYield_var = Some 50, pending = (\<lambda>i. None)\<rparr>"
  have free: "pending ?w 0 = None" by simp
  have quiet: "\<forall>e \<in> set [Timer 1]. \<exists>k. e = Timer k \<and> k \<noteq> 0" by simp
  have first: "returned (Some 50) 51 = Inr True"
    by (simp add: call_defs)
  have second: "returned (nextYield_var (final ?w [Call 0 51, Timer 0])) 52 = Inr False"
    by (simp add: call_defs)
  from set_iff_false_at_return [OF free quiet, of 51 "[0]" 52]
  have "\<exists>c. filter (\<lambda>c. task c = 0) (completions ?w (Call 0 51 # [Timer 1] @ [Timer 0])) = [c]
            \<and> result c = returned (nextYield_var ?w) 51
            \<and> at_return c = nextYield_var (final ?w (Call 0 51 # [Timer 1] @ [Timer 0]))
            \<and> (at_return c \<noteq> None) = (result c = Inr False)
            \<and> (result c = Inr True) = (at_return c = None)"
    by (rule conjunct1)
  then obtain c where
    c: "filter (\<lambda>c. task c = 0) (completions ?w (Call 0 51 # [Timer 1] @ [Timer 0])) = [c]
            \<and> result c = returned (nextYield_var ?w) 51
            \<and> at_return c = nextYield_var (final ?w (Call 0 51 # [Timer 1] @ [Timer 0]))
            \<and> (at_return c \<noteq> None) = (result c = Inr False)
            \<and> (result c = Inr True) = (at_return c = None)" ..
  from c have own: "filter (\<lambda>c. task c = 0)
      (completions ?w (Call 0 51 # [Timer 1] @ [Timer 0])) = [c]"
    by (rule conjunct1)
  from c have "result c = returned (nextYield_var ?w) 51"
    by (rule conjunct2 [THEN conjunct1])
  with first have true: "result c = Inr True" by simp
  from c have "(result c = Inr True) = (at_return c = None)"
    by (rule conjunct2 [THEN conjunct2, THEN conjunct2, THEN conjunct2])
  with true have unset: "at_return c = None" by simp
  from own have "filter (\<lambda>c. task c = 0) (completions ?w [Call 0 51, Timer 1, Timer 0]) = [c]"
    by (simp only: append.simps)
  with true unset
  have "filter (\<lambda>c. task c = 0) (completions ?w [Call 0 51, Timer 1, Timer 0]) = [c]
        \<and> result c = Inr True \<and> at_return c = None"
    by (intro conjI)
  then have "\<exists>c. filter (\<lambda>c. task c = 0) (completions ?w [Call 0 51, Timer 1, Timer 0]) = [c]
        \<and> result c = Inr True \<and> at_return c = None"
    by (rule exI)
  with first second show ?thesis by (intro conjI)
qed

end
